theory Spec2Isabelle
  imports Complex_Main "HOL-Library.Sublist"
begin

section \<open>Data model (types.ts)\<close>

text \<open>
  JavaScript strings are modelled as \<open>string\<close>: one \<open>char\<close> per code unit, so only code
  units below 256 occur. A JavaScript number is its exact decimal value or \<open>NaN\<close>; the
  rounding of \<open>parseFloat\<close> to the nearest double and the infinities are not modelled.
\<close>

datatype number = Num rat | NaN

datatype status = Pending | Processing | Completed | Error

text \<open>The interface \<open>VideoItem\<close>. Its field \<open>id\<close> is called \<open>ident\<close> here.\<close>

record VideoItem =
  ident :: string
  filepath :: string
  filename :: string
  caption :: string
  status :: status
  duration :: number
  width :: number
  height :: number
  progress :: number
  errorMsg :: "string option"

record Settings =
  outputDir :: string
  selectedFont :: string
  theme :: string

text \<open>The payload of a \<open>processing-progress\<close> message: \<open>{ path, progress }\<close>.\<close>

record ProgressData =
  path :: string
  progressValue :: number

text \<open>The argument of \<open>processVideo\<close> and the object it answers with.\<close>

record ProcessArgs =
  inputPath :: string
  outputPath :: string
  captionArg :: string
  font :: string

record Reply =
  success :: bool
  error :: "string option"

text \<open>A promise once settled: \<open>resolve(v)\<close> or a returned value, against \<open>reject(v)\<close>.\<close>

datatype 'a settled = Resolved 'a | Rejected 'a

section \<open>String helpers of the JavaScript runtime\<close>

definition newline :: char where
  "newline = CHR 0x0A"

text \<open>\<open>String.prototype.trim\<close> strips white space and line terminators from both ends.\<close>

definition is_ws :: "char \<Rightarrow> bool" where
  "is_ws c = (c \<in> set [CHR 0x09, CHR 0x0A, CHR 0x0B, CHR 0x0C, CHR 0x0D, CHR 0x20, CHR 0xA0])"

definition trim :: "string \<Rightarrow> string" where
  "trim s = rev (dropWhile is_ws (rev (dropWhile is_ws s)))"

text \<open>\<open>s.includes(sub)\<close>.\<close>

fun str_includes :: "string \<Rightarrow> string \<Rightarrow> bool" where
  "str_includes [] sub = (sub = [])"
| "str_includes (c # cs) sub = (prefix sub (c # cs) \<or> str_includes cs sub)"

text \<open>\<open>s.split(d)\<close> for a one-character separator: never empty, \<open>''''\<close> gives \<open>['''']\<close>.\<close>

fun split :: "char \<Rightarrow> string \<Rightarrow> string list" where
  "split d [] = [[]]"
| "split d (c # cs) =
     (if c = d then [] # split d cs
      else (case split d cs of [] \<Rightarrow> [[c]] | l # ls \<Rightarrow> (c # l) # ls))"

text \<open>Decimal rendering of an integer inside a template literal.\<close>

function show_nat :: "nat \<Rightarrow> string" where
  "show_nat n =
     (if n < 10 then [''0123456789'' ! n]
      else show_nat (n div 10) @ [''0123456789'' ! (n mod 10)])"
  by pat_completeness auto
termination
  by (relation "measure (\<lambda>n. n)") auto

declare show_nat.simps [simp del]

definition show_int :: "int \<Rightarrow> string" where
  "show_int i = (if i < 0 then CHR ''-'' # show_nat (nat (- i)) else show_nat (nat i))"

section \<open>Batch queue (App.tsx)\<close>

text \<open>
  \<open>handleAddVideos\<close>. Each selected file comes with the two readings the map callback takes
  for it: \<open>Date.now()\<close> (milliseconds, an integer) and \<open>Math.random()\<close> (given as the text
  the template literal renders it to).
\<close>

definition is_sep :: "char \<Rightarrow> bool" where
  "is_sep c = (c = CHR 0x5C \<or> c = CHR ''/'')"

text \<open>\<open>filepath.split(/[\\/]/).pop() || ''\<close>: what follows the last separator.\<close>

definition basename :: "string \<Rightarrow> string" where
  "basename p = rev (takeWhile (\<lambda>c. \<not> is_sep c) (rev p))"

definition new_video :: "string \<times> int \<times> string \<Rightarrow> VideoItem" where
  "new_video f =
     (case f of (fp, now, rnd) \<Rightarrow>
        \<lparr> ident = show_int now @ ''-'' @ rnd,
          filepath = fp,
          filename = basename fp,
          caption = '''',
          status = Pending,
          duration = Num 0,
          width = Num 0,
          height = Num 0,
          progress = Num 0,
          errorMsg = None \<rparr>)"

definition handleAddVideos :: "(string \<times> int \<times> string) list \<Rightarrow> VideoItem list \<Rightarrow> VideoItem list" where
  "handleAddVideos files prev = (if length files = 0 then prev else prev @ map new_video files)"

definition handleRemoveVideo :: "string \<Rightarrow> VideoItem list \<Rightarrow> VideoItem list" where
  "handleRemoveVideo i prev = filter (\<lambda>v. ident v \<noteq> i) prev"

definition handleUpdateCaption :: "string \<Rightarrow> string \<Rightarrow> VideoItem list \<Rightarrow> VideoItem list" where
  "handleUpdateCaption i c prev = map (\<lambda>v. if ident v = i then v\<lparr>caption := c\<rparr> else v) prev"

text \<open>A text that is empty or holds white space only.\<close>

definition blank :: "string \<Rightarrow> bool" where
  "blank s = list_all is_ws s"

definition handleApplyBulkCaption :: "string \<Rightarrow> VideoItem list \<Rightarrow> VideoItem list" where
  "handleApplyBulkCaption bulkCaption prev =
     (if trim bulkCaption = '''' then prev
      else map (\<lambda>v. if trim (caption v) = '''' then v\<lparr>caption := bulkCaption\<rparr> else v) prev)"

text \<open>The filter at the head of \<open>handleProcessAll\<close>.\<close>

definition eligible :: "VideoItem list \<Rightarrow> VideoItem list" where
  "eligible videos = filter (\<lambda>v. status v = Pending \<or> status v = Error) videos"

text \<open>The subscriber registered with \<open>onProcessingProgress\<close>.\<close>

definition on_progress :: "ProgressData \<Rightarrow> VideoItem list \<Rightarrow> VideoItem list" where
  "on_progress d prev =
     map (\<lambda>v. if filepath v = path d then v\<lparr>progress := progressValue d\<rparr> else v) prev"

text \<open>The three status updates of \<open>handleProcessAll\<close>, each a \<open>setVideos\<close> with a map.\<close>

definition set_processing :: "string \<Rightarrow> VideoItem list \<Rightarrow> VideoItem list" where
  "set_processing i prev =
     map (\<lambda>v. if ident v = i then v\<lparr>status := Processing, progress := Num 0\<rparr> else v) prev"

definition set_completed :: "string \<Rightarrow> VideoItem list \<Rightarrow> VideoItem list" where
  "set_completed i prev =
     map (\<lambda>v. if ident v = i then v\<lparr>status := Completed, progress := Num 100\<rparr> else v) prev"

definition set_error :: "string \<Rightarrow> string \<Rightarrow> VideoItem list \<Rightarrow> VideoItem list" where
  "set_error i msg prev =
     map (\<lambda>v. if ident v = i then v\<lparr>status := Error, errorMsg := Some msg\<rparr> else v) prev"

section \<open>Progress parser (main process, stdout handler)\<close>

definition is_num_char :: "char \<Rightarrow> bool" where
  "is_num_char c = (c \<in> set ''0123456789.'')"

definition is_digit :: "char \<Rightarrow> bool" where
  "is_digit c = (c \<in> set ''0123456789'')"

text \<open>
  \<open>line.match(/PROGRESS: ([\d.]+)/)\<close>: the leftmost place where the tag is followed by at
  least one digit or dot; the group takes the longest run of them. The result is the
  group, \<open>None\<close> when nothing matches.
\<close>

fun match_progress :: "string \<Rightarrow> string option" where
  "match_progress [] = None"
| "match_progress (c # cs) =
     (if prefix ''PROGRESS: '' (c # cs) \<and> takeWhile is_num_char (drop 10 (c # cs)) \<noteq> []
      then Some (takeWhile is_num_char (drop 10 (c # cs)))
      else match_progress cs)"

definition digits_value :: "string \<Rightarrow> nat" where
  "digits_value ds = foldl (\<lambda>a c. 10 * a + (of_char c - 48)) 0 ds"

text \<open>
  \<open>parseFloat\<close> on text made of digits and dots, which is all the group can hold: the
  longest prefix of the shape digits, dot, digits is read; a prefix without any digit
  gives \<open>NaN\<close>. Signs, exponents and leading blanks cannot occur and are not handled.
\<close>

definition parseFloat :: "string \<Rightarrow> number" where
  "parseFloat s =
     (let whole = takeWhile is_digit s;
          rest = dropWhile is_digit s;
          frac = (case rest of [] \<Rightarrow> [] | c # cs \<Rightarrow> if c = CHR ''.'' then takeWhile is_digit cs else [])
      in if whole = [] \<and> frac = [] then NaN
         else Num (of_nat (digits_value whole) + of_nat (digits_value frac) / 10 ^ length frac))"

text \<open>
  One \<open>data\<close> event of the encoder's stdout. \<open>mainWindow\<close> says whether the window still
  exists; the result lists the \<open>processing-progress\<close> messages sent, in order.
\<close>

definition line_events :: "bool \<Rightarrow> string \<Rightarrow> string \<Rightarrow> ProgressData list" where
  "line_events mainWindow inPath line =
     (if str_includes line ''PROGRESS:'' then
        (case match_progress line of
           Some m \<Rightarrow> if mainWindow then [\<lparr> path = inPath, progressValue = parseFloat m \<rparr>] else []
         | None \<Rightarrow> [])
      else [])"

definition on_stdout_data :: "bool \<Rightarrow> string \<Rightarrow> string \<Rightarrow> ProgressData list" where
  "on_stdout_data mainWindow inPath chunk =
     concat (map (line_events mainWindow inPath) (split newline chunk))"

text \<open>The messages of a whole stream delivered as the given chunks.\<close>

definition feed :: "bool \<Rightarrow> string \<Rightarrow> string list \<Rightarrow> ProgressData list" where
  "feed mainWindow inPath chunks = concat (map (on_stdout_data mainWindow inPath) chunks)"

section \<open>Command resolver (main process)\<close>

text \<open>
  A started process is logged as its command and argument list. For a version probe the
  machine tells whether the command can be launched. A child that cannot be launched emits
  \<open>error\<close> and, right after it, \<open>close\<close> with a negative code (\<open>-2\<close> for a missing file); a
  child that was launched emits \<open>close\<close> alone, with its exit code (\<open>None\<close> is \<open>null\<close>, a child
  ended by a signal). Both handlers of \<open>findPythonCommand\<close> are registered on every probe, so
  both run for a child that cannot be launched. Every child is taken to end.
\<close>

type_synonym spawn = "string \<times> string list"

datatype probe_result = NoLaunch | Exited "int option"

definition not_found_msg :: string where
  "not_found_msg = ''Python not found. Please install Python and make sure it's in your PATH.''"

text \<open>
  The state of one call of \<open>findPythonCommand\<close>: the closure's \<open>index\<close>, the promise (\<open>None\<close>
  while it is pending, \<open>Inr cmd\<close> after \<open>resolve(cmd)\<close>, \<open>Inl msg\<close> after
  \<open>reject(new Error(msg))\<close>), the probes started whose events are still to come, and the
  log of the probes started.
\<close>

record resolver =
  index :: nat
  settled :: "(string + string) option"
  pending :: "(string \<times> probe_result) list"
  started :: "spawn list"

text \<open>\<open>resolve\<close> and \<open>reject\<close>: only the first call settles the promise.\<close>

definition settle :: "string + string \<Rightarrow> resolver \<Rightarrow> resolver" where
  "settle r st = (case settled st of None \<Rightarrow> st\<lparr>settled := Some r\<rparr> | Some old \<Rightarrow> st)"

text \<open>\<open>tryNext\<close>, with the closure's \<open>commands\<close> as an argument: it rejects, or starts a probe.\<close>

definition tryNext :: "(string \<Rightarrow> probe_result) \<Rightarrow> string list \<Rightarrow> resolver \<Rightarrow> resolver" where
  "tryNext pr commands st =
     (if index st \<ge> length commands then settle (Inl not_found_msg) st
      else
        (let cmd = commands ! index st
         in st\<lparr>pending := pending st @ [(cmd, pr cmd)],
               started := started st @ [(cmd, [''--version''])]\<rparr>))"

text \<open>The two handlers registered on the probe of \<open>cmd\<close>.\<close>

definition test_on_error :: "(string \<Rightarrow> probe_result) \<Rightarrow> string list \<Rightarrow> resolver \<Rightarrow> resolver" where
  "test_on_error pr commands st = tryNext pr commands (st\<lparr>index := index st + 1\<rparr>)"

definition test_on_close ::
  "(string \<Rightarrow> probe_result) \<Rightarrow> string list \<Rightarrow> string \<Rightarrow> int option \<Rightarrow> resolver \<Rightarrow> resolver" where
  "test_on_close pr commands cmd code st =
     (if code = Some 0 then settle (Inr cmd) st
      else tryNext pr commands (st\<lparr>index := index st + 1\<rparr>))"

text \<open>The events of one child, delivered to its handlers.\<close>

definition deliver ::
  "(string \<Rightarrow> probe_result) \<Rightarrow> string list \<Rightarrow> string \<times> probe_result \<Rightarrow> resolver \<Rightarrow> resolver" where
  "deliver pr commands child st =
     (case child of
        (cmd, NoLaunch) \<Rightarrow> test_on_close pr commands cmd (Some (- 2)) (test_on_error pr commands st)
      | (cmd, Exited code) \<Rightarrow> test_on_close pr commands cmd code st)"

text \<open>
  The event loop: while probes are pending, one of them reports. Which one is the
  machine's choice, given as the list \<open>sched\<close> of positions among the pending probes (in
  Node the events of a child that cannot be launched come at the next tick, before the
  \<open>close\<close> of any launched child). The loop goes on after the promise has settled.
\<close>

function event_loop ::
  "(string \<Rightarrow> probe_result) \<Rightarrow> string list \<Rightarrow> nat list \<Rightarrow> resolver \<Rightarrow> resolver" where
  "event_loop pr commands sched st =
     (if pending st = [] then st
      else
        (let k = (case sched of [] \<Rightarrow> 0 | s # rest \<Rightarrow> s mod length (pending st));
             child = pending st ! k;
             st' = st\<lparr>pending := take k (pending st) @ drop (Suc k) (pending st)\<rparr>
         in event_loop pr commands (tl sched) (deliver pr commands child st')))"
  by pat_completeness auto
termination
proof (relation "measure (\<lambda>(pr, commands, sched, st). (length commands - index st) + length (pending st))")
  show "wf (measure (\<lambda>(pr, commands, sched, st). (length commands - index st) + length (pending st)))"
    by simp
next
  fix pr :: "string \<Rightarrow> probe_result" and commands :: "string list" and sched :: "nat list"
    and st :: resolver and k child st'
  assume ne: "pending st \<noteq> []"
    and k: "k = (case sched of [] \<Rightarrow> 0 | s # rest \<Rightarrow> s mod length (pending st))"
    and child: "child = pending st ! k"
    and st': "st' = st\<lparr>pending := take k (pending st) @ drop (Suc k) (pending st)\<rparr>"
  let ?m = "\<lambda>s. (length commands - index s) + length (pending s)"
  have settle_m: "?m (settle r s) = ?m s" for r s
    by (simp add: settle_def split: option.split)
  have next_m: "?m (tryNext pr commands (s\<lparr>index := index s + 1\<rparr>)) \<le> ?m s" for s
    by (auto simp: tryNext_def settle_m Let_def)
  have close_m: "?m (test_on_close pr commands c code s) \<le> ?m s" for c code s
    using next_m [of s] by (simp add: test_on_close_def settle_m)
  have error_m: "?m (test_on_error pr commands s) \<le> ?m s" for s
    using next_m [of s] by (simp add: test_on_error_def)
  have deliver_m: "?m (deliver pr commands ch s) \<le> ?m s" for ch s
  proof (cases ch)
    case (Pair c r)
    show ?thesis
    proof (cases r)
      case NoLaunch
      with Pair close_m [of c "Some (- 2)" "test_on_error pr commands s"] error_m [of s]
      show ?thesis by (simp add: deliver_def)
    next
      case (Exited code)
      with Pair close_m [of c code s] show ?thesis by (simp add: deliver_def)
    qed
  qed
  from ne k have "k < length (pending st)"
    by (cases sched) simp_all
  with st' have "?m st' < ?m st"
    by simp
  with deliver_m [of child st']
  show "((pr, commands, tl sched, deliver pr commands child st'), (pr, commands, sched, st))
          \<in> measure (\<lambda>(pr, commands, sched, st). (length commands - index st) + length (pending st))"
    by simp
qed

declare event_loop.simps [simp del]

text \<open>
  \<open>findPythonCommand\<close> for a list of commands: the first \<open>tryNext()\<close>, then the events. The
  result is what the promise settled to and the probes started. The promise has settled
  when no probe is pending (lemma \<open>resolver_settles\<close>), so the case \<open>None\<close> is never met.
\<close>

definition find_command ::
  "(string \<Rightarrow> probe_result) \<Rightarrow> string list \<Rightarrow> nat list \<Rightarrow> (string + string) \<times> spawn list" where
  "find_command pr commands sched =
     (let st = event_loop pr commands sched
                 (tryNext pr commands \<lparr> index = 0, settled = None, pending = [], started = [] \<rparr>)
      in (case settled st of Some r \<Rightarrow> r | None \<Rightarrow> Inl not_found_msg, started st))"

definition python_commands :: "string list" where
  "python_commands = [''python'', ''python3'', ''py'']"

definition findPythonCommand :: "(string \<Rightarrow> probe_result) \<Rightarrow> nat list \<Rightarrow> (string + string) \<times> spawn list" where
  "findPythonCommand pr sched = find_command pr python_commands sched"

section \<open>Encoder invocation (handler of \<open>process-video\<close>)\<close>

text \<open>
  What the machine does at one invocation: how each candidate answers the version probe
  and in which order pending probes report, how the encoder started with a command and
  arguments behaves (it fails to launch with the system's error text, or it runs, writes
  its stdout and stderr chunks and closes with an exit code), where the script lies, and
  whether the window exists. For an encoder that cannot be launched the \<open>error\<close> handler
  rejects first; the \<open>close\<close> that follows finds the promise settled.
\<close>

datatype child = LaunchError string | Ran "string list" "string list" "int option"

record env =
  probe :: "string \<Rightarrow> probe_result"
  order :: "nat list"
  encoder :: "string \<Rightarrow> string list \<Rightarrow> child"
  pythonScript :: string
  mainWindow :: bool

definition show_code :: "int option \<Rightarrow> string" where
  "show_code code = (case code of None \<Rightarrow> ''null'' | Some n \<Rightarrow> show_int n)"

text \<open>The \<open>close\<close> handler, given the exit code and the stderr text gathered so far.\<close>

definition on_close :: "int option \<Rightarrow> string \<Rightarrow> Reply settled" where
  "on_close code stderr =
     (if code = Some 0 then Resolved \<lparr> success = True, error = None \<rparr>
      else Rejected \<lparr> success = False,
                      error = Some (if stderr \<noteq> '''' then stderr
                                    else ''Process exited with code '' @ show_code code) \<rparr>)"

record Invocation =
  outcome :: "Reply settled"
  messages :: "ProgressData list"
  spawned :: "spawn list"

text \<open>The argument list of the encoder: script, input, output, caption, font.\<close>

definition encoder_argv :: "env \<Rightarrow> ProcessArgs \<Rightarrow> string list" where
  "encoder_argv e args =
     [pythonScript e, inputPath args, outputPath args, captionArg args,
      if font args = '''' then ''Impact'' else font args]"

text \<open>
  The handler. When the resolver rejects it returns the failure object, which resolves
  the handler's promise; the probes are logged before the encoder.
\<close>

definition process_video :: "env \<Rightarrow> ProcessArgs \<Rightarrow> Invocation" where
  "process_video e args =
     (case findPythonCommand (probe e) (order e) of
        (Inl msg, probes) \<Rightarrow>
          \<lparr> outcome = Resolved \<lparr> success = False, error = Some msg \<rparr>,
            messages = [], spawned = probes \<rparr>
      | (Inr pythonCmd, probes) \<Rightarrow>
          (let argv = encoder_argv e args;
               procs = probes @ [(pythonCmd, argv)]
           in case encoder e pythonCmd argv of
                LaunchError m \<Rightarrow>
                  \<lparr> outcome = Rejected \<lparr> success = False, error = Some m \<rparr>,
                    messages = [], spawned = procs \<rparr>
              | Ran out err code \<Rightarrow>
                  \<lparr> outcome = on_close code (concat err),
                    messages = feed (mainWindow e) (inputPath args) out,
                    spawned = procs \<rparr>))"

section \<open>Preload bridge (\<open>ipcRenderer.invoke\<close>)\<close>

text \<open>
  \<open>processVideo\<close> is \<open>ipcRenderer.invoke('process-video', args)\<close>. A value the handler resolves
  with reaches the renderer as it is. A rejection does not: Electron sends the text of the
  rejected value (\<open>[object Object]\<close> for the handler's object) and the renderer side throws a
  new \<open>Error\<close> with that text in its message. The thrown object is modelled by its message
  and its property \<open>error\<close>, which such an \<open>Error\<close> does not have.
\<close>

record JsError =
  errMessage :: string
  errError :: "string option"

datatype 'a invoked = Returned 'a | Threw JsError

definition invoke :: "Reply settled \<Rightarrow> Reply invoked" where
  "invoke p =
     (case p of
        Resolved r \<Rightarrow> Returned r
      | Rejected r \<Rightarrow>
          Threw \<lparr> errMessage = ''Error invoking remote method 'process-video': [object Object]'',
                  errError = None \<rparr>)"

section \<open>Batch run (\<open>handleProcessAll\<close>)\<close>

text \<open>
  The progress messages of an invocation are delivered before its outcome. \<open>world k\<close> is the
  machine at the \<open>k\<close>-th invocation of the run. The flag \<open>isProcessing\<close>, which only disables
  the button, and the selection \<open>selectedVideo\<close> are left out; the requests to \<open>processVideo\<close>
  made and the alerts shown are recorded.
\<close>

datatype alert = NoVideos | PythonNotFound string | ProcessingComplete

record Run =
  videos :: "VideoItem list"
  requests :: "ProcessArgs list"
  spawns :: "spawn list"
  alerts :: "alert list"

text \<open>\<open>name.replace(/\.[^/.]+$/, '')\<close>: drops a last extension that is not empty.\<close>

definition strip_ext :: "string \<Rightarrow> string" where
  "strip_ext name =
     (let ext = takeWhile (\<lambda>c. c \<noteq> CHR ''/'' \<and> c \<noteq> CHR ''.'') (rev name)
      in case dropWhile (\<lambda>c. c \<noteq> CHR ''/'' \<and> c \<noteq> CHR ''.'') (rev name) of
           [] \<Rightarrow> name
         | c # cs \<Rightarrow> if c = CHR ''.'' \<and> ext \<noteq> [] then rev cs else name)"

definition process_args :: "Settings \<Rightarrow> VideoItem \<Rightarrow> ProcessArgs" where
  "process_args settings video =
     \<lparr> inputPath = filepath video,
       outputPath = outputDir settings @ ''/'' @ strip_ext (filename video) @ ''_tiktok.mp4'',
       captionArg = caption video,
       font = selectedFont settings \<rparr>"

text \<open>\<open>error.error || 'Processing failed'\<close>, for the object caught.\<close>

definition error_text :: "JsError \<Rightarrow> string" where
  "error_text e =
     (case errError e of
        None \<Rightarrow> ''Processing failed''
      | Some m \<Rightarrow> if m \<noteq> '''' then m else ''Processing failed'')"

text \<open>The \<open>for\<close> loop over the snapshot \<open>pending\<close>; the first equation is its end.\<close>

fun process_loop :: "(nat \<Rightarrow> env) \<Rightarrow> Settings \<Rightarrow> nat \<Rightarrow> VideoItem list \<Rightarrow> Run \<Rightarrow> Run" where
  "process_loop world settings k [] run = run"
| "process_loop world settings k (video # rest) run =
     (let started_q = set_processing (ident video) (videos run);
          args = process_args settings video;
          inv = process_video (world k) args;
          during = foldl (\<lambda>vs d. on_progress d vs) started_q (messages inv);
          made = requests run @ [args];
          procs = spawns run @ spawned inv
      in case invoke (outcome inv) of
           Returned r \<Rightarrow>
             process_loop world settings (k + 1) rest
               (run\<lparr>videos := set_completed (ident video) during, requests := made, spawns := procs\<rparr>)
         | Threw e \<Rightarrow>
             (let errorMsg = error_text e;
                  failed = set_error (ident video) errorMsg during
              in if str_includes errorMsg ''Python not found''
                 then run\<lparr>videos := failed, requests := made, spawns := procs,
                          alerts := alerts run @ [PythonNotFound errorMsg]\<rparr>
                 else process_loop world settings (k + 1) rest
                        (run\<lparr>videos := failed, requests := made, spawns := procs\<rparr>)))"

definition handleProcessAll :: "(nat \<Rightarrow> env) \<Rightarrow> Settings \<Rightarrow> VideoItem list \<Rightarrow> Run" where
  "handleProcessAll world settings vs =
     (let pending_q = eligible vs
      in if length pending_q = 0
         then \<lparr> videos = vs, requests = [], spawns = [], alerts = [NoVideos] \<rparr>
         else (let run = process_loop world settings 0 pending_q
                           \<lparr> videos = vs, requests = [], spawns = [], alerts = [] \<rparr>
               in run\<lparr>alerts := alerts run @ [ProcessingComplete]\<rparr>))"

section \<open>Notions used in the statements\<close>

text \<open>
  What one job becomes under a list of progress messages; the subscriber applied for each
  message in turn does this to every job of the queue (lemma \<open>progress_fold_map\<close>).
\<close>

definition receive :: "ProgressData list \<Rightarrow> VideoItem \<Rightarrow> VideoItem" where
  "receive ds v =
     foldl (\<lambda>v d. if filepath v = path d then v\<lparr>progress := progressValue d\<rparr> else v) v ds"

text \<open>
  The queue after a sequence of \<open>handleAddVideos\<close> calls, from the empty queue the
  component starts with.
\<close>

definition enqueue_all :: "(string \<times> int \<times> string) list list \<Rightarrow> VideoItem list" where
  "enqueue_all calls = foldl (\<lambda>q files. handleAddVideos files q) [] calls"

section \<open>Sample data for the concrete instances\<close>

definition sample_job :: "string \<Rightarrow> string \<Rightarrow> string \<Rightarrow> status \<Rightarrow> VideoItem" where
  "sample_job i p c s =
     \<lparr> ident = i, filepath = p, filename = basename p, caption = c, status = s,
       duration = Num 0, width = Num 0, height = Num 0, progress = Num 0, errorMsg = None \<rparr>"

text \<open>
  A machine where \<open>python\<close>, the first candidate, answers the probe with 0 and the encoder
  behaves as given.
\<close>

definition sample_env :: "child \<Rightarrow> env" where
  "sample_env ch =
     \<lparr> probe = (\<lambda>c. if c = ''python'' then Exited (Some 0) else NoLaunch),
       order = [],
       encoder = (\<lambda>cmd argv. ch),
       pythonScript = ''/app/python/processor.py'',
       mainWindow = True \<rparr>"

text \<open>A machine without any Python: no candidate can be launched.\<close>

definition no_python_env :: env where
  "no_python_env =
     \<lparr> probe = (\<lambda>c. NoLaunch),
       order = [],
       encoder = (\<lambda>cmd argv. Ran [] [] (Some 0)),
       pythonScript = ''/app/python/processor.py'',
       mainWindow = True \<rparr>"

text \<open>
  A machine where only \<open>python3\<close> exists: \<open>python\<close> and \<open>py\<close> cannot be launched. When
  \<open>python3\<close> and \<open>py\<close> are both pending, \<open>py\<close> (position 1) reports first: its failure to
  launch is known at the next tick, while \<open>python3\<close> has yet to run and exit.
\<close>

definition only_python3 :: "string \<Rightarrow> probe_result" where
  "only_python3 c = (if c = ''python3'' then Exited (Some 0) else NoLaunch)"

text \<open>A job left in \<open>error\<close> by an earlier run, and a job that run completed for file \<open>p\<close>.\<close>

definition failed_job :: VideoItem where
  "failed_job = (sample_job ''1'' ''/a.mp4'' ''hello'' Error)\<lparr>errorMsg := Some ''Processing failed''\<rparr>"

definition done_job :: "string \<Rightarrow> VideoItem" where
  "done_job p = (sample_job ''2'' p [] Completed)\<lparr>progress := Num 100\<rparr>"

text \<open>An encoder that reports 50 percent and succeeds.\<close>

definition half_way :: child where
  "half_way = Ran [''PROGRESS: 50\<newline>''] [] (Some 0)"

definition sample_settings :: Settings where
  "sample_settings = \<lparr> outputDir = ''/out'', selectedFont = ''Impact'', theme = ''dark'' \<rparr>"

text \<open>
  Three pending jobs, and a run in which the encoder of the second one closes with code 1
  after writing \<open>bad codec\<close> to stderr while the two others succeed.
\<close>

definition three_jobs :: "VideoItem list" where
  "three_jobs =
     [sample_job ''1'' ''/a.mp4'' [] Pending, sample_job ''2'' ''/b.mp4'' [] Pending,
      sample_job ''3'' ''/c.mp4'' [] Pending]"

definition bad_codec_world :: "nat \<Rightarrow> env" where
  "bad_codec_world k = sample_env (if k = 1 then Ran [] [''bad codec''] (Some 1) else half_way)"

section \<open>Properties: bulk caption\<close>

lemma trim_empty_iff: "trim s = [] \<longleftrightarrow> blank s"
proof (cases "dropWhile is_ws s = []")
  case True
  then have "blank s"
    by (simp add: blank_def list_all_iff dropWhile_eq_Nil_conv)
  with True show ?thesis
    by (auto simp: trim_def dest: set_dropWhileD)
next
  case False
  have "\<not> is_ws (hd (dropWhile is_ws s))"
    by (rule hd_dropWhile [OF False])
  moreover have "hd (dropWhile is_ws s) \<in> set (dropWhile is_ws s)"
    by (rule hd_in_set [OF False])
  ultimately have "dropWhile is_ws (rev (dropWhile is_ws s)) \<noteq> []"
    unfolding dropWhile_eq_Nil_conv set_rev by blast
  moreover from False have "\<not> blank s"
    by (simp add: blank_def list_all_iff dropWhile_eq_Nil_conv)
  ultimately show ?thesis
    by (simp add: trim_def)
qed

text \<open>
  C6. For every queue \<open>q\<close> and text \<open>X\<close>, \<open>handleApplyBulkCaption\<close> keeps the length and order
  of the queue; when \<open>X\<close> is not blank, the job at each position becomes the same job with
  caption \<open>X\<close> if its caption was empty or white space only, and stays as it was, in every
  field, otherwise; when \<open>X\<close> is empty or white space only the whole queue is unchanged.
\<close>

theorem fill_empty_captions:
  "length (handleApplyBulkCaption X q) = length q \<and>
   (\<forall>i<length q. handleApplyBulkCaption X q ! i =
       (if \<not> blank X \<and> blank (caption (q ! i)) then (q ! i)\<lparr>caption := X\<rparr> else q ! i)) \<and>
   (blank X \<longrightarrow> handleApplyBulkCaption X q = q)"
  by (simp add: handleApplyBulkCaption_def trim_empty_iff)

theorem fill_empty_captions_witness:
  "\<not> blank ''X'' \<and> blank (caption (sample_job ''1'' ''/a.mp4'' '' '' Pending)) \<and>
   handleApplyBulkCaption ''X'' [sample_job ''1'' ''/a.mp4'' '' '' Pending, sample_job ''2'' ''/b.mp4'' ''mine'' Pending] ! 0
     = sample_job ''1'' ''/a.mp4'' ''X'' Pending \<and>
   handleApplyBulkCaption ''X'' [sample_job ''1'' ''/a.mp4'' '' '' Pending, sample_job ''2'' ''/b.mp4'' ''mine'' Pending] ! 1
     = sample_job ''2'' ''/b.mp4'' ''mine'' Pending \<and>
   handleApplyBulkCaption '' '' [sample_job ''1'' ''/a.mp4'' '''' Pending] = [sample_job ''1'' ''/a.mp4'' '''' Pending]"
  using fill_empty_captions [of "''X''" "[sample_job ''1'' ''/a.mp4'' '' '' Pending, sample_job ''2'' ''/b.mp4'' ''mine'' Pending]"]
    fill_empty_captions [of "'' ''" "[sample_job ''1'' ''/a.mp4'' '''' Pending]"]
  by (simp add: blank_def is_ws_def sample_job_def)

section \<open>Properties: command resolver\<close>

text \<open>When no probe is pending any more, the promise has settled.\<close>

lemma settle_settled: "\<exists>y. settled (settle r st) = Some y"
  by (simp add: settle_def split: option.split)

lemma tryNext_live: "settled (tryNext pr cs st) \<noteq> None \<or> pending (tryNext pr cs st) \<noteq> []"
  by (simp add: tryNext_def settle_settled Let_def)

lemma test_on_close_live:
  "settled (test_on_close pr cs c code st) \<noteq> None \<or> pending (test_on_close pr cs c code st) \<noteq> []"
  using tryNext_live by (simp add: test_on_close_def settle_settled)

lemma deliver_live:
  "settled (deliver pr cs ch st) \<noteq> None \<or> pending (deliver pr cs ch st) \<noteq> []"
proof (cases ch)
  case (Pair c r)
  then show ?thesis
    using test_on_close_live by (cases r) (simp_all add: deliver_def)
qed

lemma event_loop_settles:
  "settled st \<noteq> None \<or> pending st \<noteq> [] \<Longrightarrow> settled (event_loop pr cs sched st) \<noteq> None"
proof (induction pr cs sched st rule: event_loop.induct)
  case (1 pr commands sched st)
  show ?case
  proof (cases "pending st = []")
    case True
    with "1.prems" show ?thesis by (simp add: event_loop.simps)
  next
    case False
    define k where "k = (case sched of [] \<Rightarrow> 0 | s # rest \<Rightarrow> s mod length (pending st))"
    define st' where "st' = st\<lparr>pending := take k (pending st) @ drop (Suc k) (pending st)\<rparr>"
    have "settled (event_loop pr commands (tl sched) (deliver pr commands (pending st ! k) st')) \<noteq> None"
      using "1.IH" [OF False k_def refl st'_def] deliver_live by blast
    with False show ?thesis
      by (subst event_loop.simps) (simp add: Let_def k_def st'_def)
  qed
qed

lemma resolver_settles:
  "settled (event_loop pr cs sched (tryNext pr cs st)) \<noteq> None"
  by (rule event_loop_settles) (rule tryNext_live)

lemma find_command_first:
  assumes "pr c = Exited (Some 0)"
  shows "find_command pr (c # cs) sched = (Inr c, [(c, [''--version''])])"
  using assms
  by (simp add: find_command_def tryNext_def event_loop.simps deliver_def test_on_close_def
        settle_def Let_def split: list.split)

lemma findPythonCommand_first:
  assumes "pr ''python'' = Exited (Some 0)"
  shows "findPythonCommand pr sched = (Inr ''python'', [(''python'', [''--version''])])"
  using find_command_first [where pr = pr and c = "''python''", OF assms] by (simp add: findPythonCommand_def python_commands_def)

lemmas resolver_eval = find_command_def tryNext_def event_loop.simps deliver_def
  test_on_close_def test_on_error_def settle_def Let_def

text \<open>
  C5. The code departs from the claim when a candidate cannot be launched: its probe emits
  \<open>error\<close> and then \<open>close\<close>, each handler advances \<open>index\<close> and calls \<open>tryNext()\<close>, so two
  further candidates are started at once. On a machine where only \<open>python3\<close> exists, \<open>py\<close> is
  started together with \<open>python3\<close>, fails to launch, and the resolver rejects with the
  install message although \<open>python3\<close> closes with status 0. With candidates \<open>a\<close>, \<open>b\<close>, \<open>c\<close>
  where only \<open>b\<close> closes with 0 and \<open>a\<close> cannot be launched, \<open>c\<close> is started in every case;
  the resolver rejects when \<open>c\<close> reports before \<open>b\<close>, and returns \<open>b\<close> otherwise.
\<close>

theorem resolver_double_event:
  "findPythonCommand only_python3 [0, 1] =
     (Inl ''Python not found. Please install Python and make sure it's in your PATH.'',
      [(''python'', [''--version'']), (''python3'', [''--version'']), (''py'', [''--version''])]) \<and>
   find_command (\<lambda>c. if c = ''b'' then Exited (Some 0) else NoLaunch) [''a'', ''b'', ''c''] [0, 1] =
     (Inl ''Python not found. Please install Python and make sure it's in your PATH.'',
      [(''a'', [''--version'']), (''b'', [''--version'']), (''c'', [''--version''])]) \<and>
   find_command (\<lambda>c. if c = ''b'' then Exited (Some 0) else NoLaunch) [''a'', ''b'', ''c''] [0, 0] =
     (Inr ''b'',
      [(''a'', [''--version'']), (''b'', [''--version'']), (''c'', [''--version''])])"
  by (simp add: findPythonCommand_def python_commands_def resolver_eval only_python3_def
        not_found_msg_def)

section \<open>Properties: encoder outcome\<close>

lemma process_video_first:
  assumes "probe e ''python'' = Exited (Some 0)"
  shows "process_video e args =
     (case encoder e ''python'' (encoder_argv e args) of
        LaunchError m \<Rightarrow>
          \<lparr> outcome = Rejected \<lparr> success = False, error = Some m \<rparr>, messages = [],
            spawned = [(''python'', [''--version'']), (''python'', encoder_argv e args)] \<rparr>
      | Ran out err code \<Rightarrow>
          \<lparr> outcome = on_close code (concat err),
            messages = feed (mainWindow e) (inputPath args) out,
            spawned = [(''python'', [''--version'']), (''python'', encoder_argv e args)] \<rparr>)"
  by (cases "encoder e ''python'' (encoder_argv e args)")
     (simp_all add: process_video_def findPythonCommand_first [where pr = "probe e", OF assms] Let_def)

lemma process_video_sample:
  "process_video (sample_env ch) args =
     (case ch of
        LaunchError m \<Rightarrow>
          \<lparr> outcome = Rejected \<lparr> success = False, error = Some m \<rparr>, messages = [],
            spawned = [(''python'', [''--version'']),
                       (''python'', encoder_argv (sample_env ch) args)] \<rparr>
      | Ran out err code \<Rightarrow>
          \<lparr> outcome = on_close code (concat err),
            messages = feed True (inputPath args) out,
            spawned = [(''python'', [''--version'']),
                       (''python'', encoder_argv (sample_env ch) args)] \<rparr>)"
proof -
  have "probe (sample_env ch) ''python'' = Exited (Some 0)"
    by (simp add: sample_env_def)
  moreover have "mainWindow (sample_env ch) = True"
    and "encoder (sample_env ch) c a = ch" for c a
    by (simp_all add: sample_env_def)
  ultimately show ?thesis
    by (simp only: process_video_first)
qed

lemma no_python_resolution:
  "findPythonCommand (\<lambda>c. NoLaunch) [] =
     (Inl not_found_msg,
      [(''python'', [''--version'']), (''python3'', [''--version'']), (''py'', [''--version''])])"
  by (simp add: findPythonCommand_def python_commands_def resolver_eval)

lemma process_video_no_python:
  "process_video no_python_env args =
     \<lparr> outcome = Resolved \<lparr> success = False, error = Some not_found_msg \<rparr>,
       messages = [],
       spawned = [(''python'', [''--version'']), (''python3'', [''--version'']),
                  (''py'', [''--version''])] \<rparr>"
  by (simp add: process_video_def no_python_env_def no_python_resolution)

text \<open>
  C3. The \<open>close\<close> handler of the encoder resolves with \<open>{ success: true }\<close> on code 0,
  whatever text stderr gave, and on a code \<open>n\<close> other than 0 rejects with \<open>success = false\<close>
  and, as message, the stderr text when that is not empty and \<open>Process exited with code n\<close>
  otherwise. On a machine whose first candidate \<open>python\<close> answers the version probe with
  0, where the encoder started with it runs to its \<open>close\<close> event, that is the outcome of
  the whole invocation.
\<close>

theorem encoder_outcome_rule:
  assumes "probe e ''python'' = Exited (Some 0)"
      and "encoder e ''python'' (encoder_argv e args) = Ran out err code"
  shows "(code = Some 0 \<longrightarrow>
            outcome (process_video e args) = Resolved \<lparr> success = True, error = None \<rparr>) \<and>
         (\<forall>n. code = Some n \<and> n \<noteq> 0 \<longrightarrow>
            outcome (process_video e args) =
              Rejected \<lparr> success = False,
                         error = Some (if concat err \<noteq> '''' then concat err
                                       else ''Process exited with code '' @ show_int n) \<rparr>) \<and>
         (\<forall>stderr. on_close (Some 0) stderr = Resolved \<lparr> success = True, error = None \<rparr>) \<and>
         (\<forall>n stderr. n \<noteq> 0 \<longrightarrow>
            on_close (Some n) stderr =
              Rejected \<lparr> success = False,
                         error = Some (if stderr \<noteq> '''' then stderr
                                       else ''Process exited with code '' @ show_int n) \<rparr>)"
  using assms
  by (simp add: process_video_first on_close_def show_code_def)

theorem encoder_outcome_rule_witness:
  "outcome (process_video (sample_env (Ran [] [''warning: deprecated''] (Some 0))) (process_args sample_settings (sample_job ''1'' ''/a.mp4'' '''' Pending)))
     = Resolved \<lparr> success = True, error = None \<rparr> \<and>
   outcome (process_video (sample_env (Ran [] [''bad '', ''codec''] (Some 1))) (process_args sample_settings (sample_job ''1'' ''/a.mp4'' '''' Pending)))
     = Rejected \<lparr> success = False, error = Some ''bad codec'' \<rparr> \<and>
   outcome (process_video (sample_env (Ran [] [] (Some 3))) (process_args sample_settings (sample_job ''1'' ''/a.mp4'' '''' Pending)))
     = Rejected \<lparr> success = False, error = Some ''Process exited with code 3'' \<rparr>"
proof -
  let ?args = "process_args sample_settings (sample_job ''1'' ''/a.mp4'' '''' Pending)"
  have r: "probe (sample_env ch) ''python'' = Exited (Some 0)" for ch
    by (simp add: sample_env_def)
  have e: "encoder (sample_env ch) ''python'' (encoder_argv (sample_env ch) ?args) = ch" for ch
    by (simp add: sample_env_def)
  have s3: "show_int 3 = ''3''"
    by (simp add: show_int_def show_nat.simps)
  show ?thesis
    using encoder_outcome_rule [where e = "sample_env (Ran [] [''warning: deprecated''] (Some 0))" and args = ?args and code = "Some 0", OF r e]
      encoder_outcome_rule [where e = "sample_env (Ran [] [''bad '', ''codec''] (Some 1))" and args = ?args and code = "Some 1", OF r e]
      encoder_outcome_rule [where e = "sample_env (Ran [] [] (Some 3))" and args = ?args and code = "Some 3", OF r e]
    by (simp add: s3)
qed

section \<open>Properties: progress routing and updates for jobs no longer queued\<close>

lemma line_events_path: "m \<in> set (line_events w p line) \<Longrightarrow> path m = p"
  unfolding line_events_def
  by (cases "str_includes line ''PROGRESS:''"; cases "match_progress line"; cases w) simp_all

lemma feed_path: "m \<in> set (feed w p chunks) \<Longrightarrow> path m = p"
  by (auto simp: feed_def on_stdout_data_def dest: line_events_path)

lemma messages_path:
  assumes "m \<in> set (messages (process_video e args))"
  shows "path m = inputPath args"
proof (cases "findPythonCommand (probe e) (order e)")
  case (Pair r probes)
  with assms show ?thesis
    by (cases r; cases "encoder e (projr r) (encoder_argv e args)")
       (auto simp: process_video_def Let_def dest: feed_path)
qed

text \<open>
  C10. A progress message carries the input path of the invocation that sent it, never a
  job id. For every delivered message the subscriber keeps the queue's length and order
  and sets the progress of every job whose \<open>filepath\<close> equals the message's path, whatever
  its status and however many such jobs there are, leaving every other job as it was; the
  ids play no part: renaming the ids with any function \<open>g\<close> commutes with the update.
\<close>

theorem progress_routed_by_path:
  "length (on_progress d q) = length q \<and>
   (\<forall>i<length q. on_progress d q ! i =
       (if filepath (q ! i) = path d then (q ! i)\<lparr>progress := progressValue d\<rparr> else q ! i)) \<and>
   on_progress d (map (ident_update g) q) = map (ident_update g) (on_progress d q) \<and>
   (\<forall>m\<in>set (messages (process_video e args)). path m = inputPath args)"
  using messages_path [of _ e args] by (auto simp: on_progress_def)

theorem progress_routed_by_path_witness:
  "on_progress \<lparr> path = ''/v.mp4'', progressValue = Num 40 \<rparr>
     [sample_job ''1'' ''/v.mp4'' '''' Processing, sample_job ''2'' ''/w.mp4'' '''' Pending,
      sample_job ''3'' ''/v.mp4'' ''twice'' Completed] ! 2
     = (sample_job ''3'' ''/v.mp4'' ''twice'' Completed)\<lparr>progress := Num 40\<rparr> \<and>
   on_progress \<lparr> path = ''/v.mp4'', progressValue = Num 40 \<rparr>
     [sample_job ''1'' ''/v.mp4'' '''' Processing, sample_job ''2'' ''/w.mp4'' '''' Pending,
      sample_job ''3'' ''/v.mp4'' ''twice'' Completed] ! 1
     = sample_job ''2'' ''/w.mp4'' '''' Pending"
  using progress_routed_by_path [of "\<lparr> path = ''/v.mp4'', progressValue = Num 40 \<rparr>"
     "[sample_job ''1'' ''/v.mp4'' '''' Processing, sample_job ''2'' ''/w.mp4'' '''' Pending,
       sample_job ''3'' ''/v.mp4'' ''twice'' Completed]" id no_python_env
     "process_args sample_settings (sample_job ''1'' ''/v.mp4'' '''' Processing)"]
  by (simp add: sample_job_def)

text \<open>
  C9 as amended. A status update (\<open>processing\<close>, \<open>completed\<close>, \<open>error\<close>) for an id that no
  job of the queue carries leaves the queue unchanged, and after \<open>handleRemoveVideo i\<close> no
  job carries \<open>i\<close>. A progress message leaves the queue unchanged when no job of the queue
  has the message's path; it is routed by path, so a job that is still queued for the
  same file as the removed one does receive it.
\<close>

theorem updates_after_removal:
  "((\<forall>v\<in>set q. ident v \<noteq> i) \<longrightarrow>
      set_processing i q = q \<and> set_completed i q = q \<and> set_error i msg q = q) \<and>
   ((\<forall>v\<in>set q. filepath v \<noteq> path d) \<longrightarrow> on_progress d q = q) \<and>
   (\<forall>v\<in>set (handleRemoveVideo i q). ident v \<noteq> i)"
  by (auto simp: set_processing_def set_completed_def set_error_def on_progress_def
        handleRemoveVideo_def intro!: map_idI)

theorem updates_after_removal_witness:
  "set_error ''1'' ''bad codec'' (handleRemoveVideo ''1'' [sample_job ''1'' ''/v.mp4'' '''' Processing, sample_job ''2'' ''/w.mp4'' '''' Pending])
     = [sample_job ''2'' ''/w.mp4'' '''' Pending] \<and>
   on_progress \<lparr> path = ''/v.mp4'', progressValue = Num 40 \<rparr>
     (handleRemoveVideo ''1'' [sample_job ''1'' ''/v.mp4'' '''' Processing, sample_job ''2'' ''/w.mp4'' '''' Pending])
     = [sample_job ''2'' ''/w.mp4'' '''' Pending]"
  using updates_after_removal [of "handleRemoveVideo ''1'' [sample_job ''1'' ''/v.mp4'' '''' Processing, sample_job ''2'' ''/w.mp4'' '''' Pending]"
      "''1''" "''bad codec''" "\<lparr> path = ''/v.mp4'', progressValue = Num 40 \<rparr>"]
  by (simp add: handleRemoveVideo_def sample_job_def)

text \<open>
  C9 as stated fails: job 1 is removed while its encoder runs, job 2 is queued for the same
  file, and the next progress message of job 1's encoder changes the queue.
\<close>

theorem removed_job_progress_counterexample:
  "on_progress \<lparr> path = ''/v.mp4'', progressValue = Num 40 \<rparr>
     (handleRemoveVideo ''1'' [sample_job ''1'' ''/v.mp4'' '''' Processing, sample_job ''2'' ''/v.mp4'' '''' Pending])
   \<noteq> handleRemoveVideo ''1'' [sample_job ''1'' ''/v.mp4'' '''' Processing, sample_job ''2'' ''/v.mp4'' '''' Pending]"
  by (simp add: on_progress_def handleRemoveVideo_def sample_job_def)

section \<open>Properties: progress parser\<close>

lemma str_includes_iff: "str_includes s sub \<longleftrightarrow> (\<exists>pre post. s = pre @ sub @ post)"
proof (induction s)
  case Nil
  then show ?case by auto
next
  case (Cons c cs)
  show ?case
  proof
    assume "str_includes (c # cs) sub"
    then consider "prefix sub (c # cs)" | "str_includes cs sub" by auto
    then show "\<exists>pre post. c # cs = pre @ sub @ post"
    proof cases
      case 1
      then obtain post where "c # cs = sub @ post" by (auto simp: prefix_def)
      then have "c # cs = [] @ sub @ post" by simp
      then show ?thesis by blast
    next
      case 2
      with Cons.IH obtain pre post where "cs = pre @ sub @ post" by blast
      then have "c # cs = (c # pre) @ sub @ post" by simp
      then show ?thesis by blast
    qed
  next
    assume "\<exists>pre post. c # cs = pre @ sub @ post"
    then obtain pre post where e: "c # cs = pre @ sub @ post" by blast
    show "str_includes (c # cs) sub"
    proof (cases pre)
      case Nil
      with e have "prefix sub (c # cs)" by (simp add: prefix_def)
      then show ?thesis by simp
    next
      case (Cons x pre')
      with e have "cs = pre' @ sub @ post" by simp
      with Cons.IH have "str_includes cs sub" by blast
      then show ?thesis by simp
    qed
  qed
qed

lemma match_progress_Some:
  "match_progress line = Some m \<Longrightarrow>
     \<exists>pre rest. line = pre @ ''PROGRESS: '' @ rest \<and> m = takeWhile is_num_char rest \<and> m \<noteq> []"
proof (induction line)
  case Nil
  then show ?case by simp
next
  case (Cons c cs)
  show ?case
  proof (cases "prefix ''PROGRESS: '' (c # cs) \<and> takeWhile is_num_char (drop 10 (c # cs)) \<noteq> []")
    case True
    then obtain rest where r: "c # cs = ''PROGRESS: '' @ rest" by (auto simp: prefix_def)
    then have "drop 10 (c # cs) = rest" by simp
    with True Cons.prems have "m = takeWhile is_num_char rest" "m \<noteq> []" by auto
    with r have "c # cs = [] @ ''PROGRESS: '' @ rest \<and> m = takeWhile is_num_char rest \<and> m \<noteq> []"
      by simp
    then show ?thesis by blast
  next
    case False
    with Cons.prems have "match_progress cs = Some m" by auto
    with Cons.IH obtain pre rest where
      a: "cs = pre @ ''PROGRESS: '' @ rest" and b: "m = takeWhile is_num_char rest" and c: "m \<noteq> []"
      by blast
    from a have "c # cs = (c # pre) @ ''PROGRESS: '' @ rest" by simp
    with b c have "\<exists>pre rest. c # cs = pre @ ''PROGRESS: '' @ rest \<and> m = takeWhile is_num_char rest \<and> m \<noteq> []"
      by blast
    then show ?thesis by blast
  qed
qed

lemma match_progress_found:
  "takeWhile is_num_char rest \<noteq> [] \<Longrightarrow> match_progress (pre @ ''PROGRESS: '' @ rest) \<noteq> None"
proof (induction pre)
  case Nil
  then show ?case by simp
next
  case (Cons x pre)
  then show ?case by (simp del: append.simps(2) add: append_Cons)
qed

lemma match_progress_iff:
  "match_progress line \<noteq> None \<longleftrightarrow>
     (\<exists>pre c rest. line = pre @ ''PROGRESS: '' @ c # rest \<and> is_num_char c)"
proof
  assume "match_progress line \<noteq> None"
  then obtain m where "match_progress line = Some m" by auto
  from match_progress_Some [OF this] obtain pre rest where
    l: "line = pre @ ''PROGRESS: '' @ rest" and m: "takeWhile is_num_char rest \<noteq> []" by blast
  from m obtain c rest' where "rest = c # rest'" "is_num_char c"
    by (cases rest) (auto split: if_splits)
  with l show "\<exists>pre c rest. line = pre @ ''PROGRESS: '' @ c # rest \<and> is_num_char c" by blast
next
  assume "\<exists>pre c rest. line = pre @ ''PROGRESS: '' @ c # rest \<and> is_num_char c"
  then obtain pre c rest where l: "line = pre @ ''PROGRESS: '' @ c # rest" and c: "is_num_char c"
    by blast
  from c have "takeWhile is_num_char (c # rest) \<noteq> []" by simp
  from match_progress_found [OF this, of pre] l show "match_progress line \<noteq> None" by simp
qed

lemma match_includes: "match_progress line \<noteq> None \<Longrightarrow> str_includes line ''PROGRESS:''"
proof -
  assume "match_progress line \<noteq> None"
  then obtain pre c rest where "line = pre @ ''PROGRESS: '' @ c # rest"
    unfolding match_progress_iff by blast
  then have "line = pre @ ''PROGRESS:'' @ ('' '' @ c # rest)" by simp
  then show ?thesis unfolding str_includes_iff by blast
qed

lemma line_events_cases:
  "line_events w p line =
     (case match_progress line of
        Some m \<Rightarrow> if w then [\<lparr> path = p, progressValue = parseFloat m \<rparr>] else []
      | None \<Rightarrow> [])"
  using match_includes [of line]
  by (cases "match_progress line") (simp_all add: line_events_def)

lemma line_events_at_most_one: "length (line_events w p line) \<le> 1"
  by (cases "match_progress line") (simp_all add: line_events_cases)

lemma line_events_nonempty_iff:
  "line_events w p line \<noteq> [] \<longleftrightarrow>
     w \<and> (\<exists>pre c rest. line = pre @ ''PROGRESS: '' @ c # rest \<and> is_num_char c)"
  unfolding match_progress_iff [symmetric]
  by (cases "match_progress line") (simp_all add: line_events_cases)

lemma split_nonempty: "split d s \<noteq> []"
  by (induction s) (auto split: list.splits)

lemma split_append_sep: "split d (xs @ d # ys) = split d xs @ split d ys"
proof (induction xs)
  case Nil
  then show ?case by simp
next
  case (Cons x xs)
  then show ?case
    using split_nonempty [of d xs]
    by (cases "split d xs") auto
qed

lemma line_events_empty: "line_events w p [] = []"
  by (simp add: line_events_def)

lemma on_stdout_data_empty: "on_stdout_data w p [] = []"
  by (simp add: on_stdout_data_def line_events_empty)

lemma on_stdout_data_line_end:
  "on_stdout_data w p ((xs @ [newline]) @ ys) = on_stdout_data w p (xs @ [newline]) @ on_stdout_data w p ys"
  by (simp add: on_stdout_data_def split_append_sep line_events_empty)

lemma on_stdout_data_aligned:
  assumes "c = [] \<or> last c = newline"
  shows "on_stdout_data w p (c @ ys) = on_stdout_data w p c @ on_stdout_data w p ys"
proof (cases "c = []")
  case True
  then show ?thesis by (simp add: on_stdout_data_empty)
next
  case False
  with assms have "c = butlast c @ [newline]"
    by (metis append_butlast_last_id)
  then show ?thesis
    using on_stdout_data_line_end [of w p "butlast c" ys] by simp
qed

lemma feed_aligned:
  assumes "\<forall>c\<in>set (butlast chunks). c = [] \<or> last c = newline"
  shows "feed w p chunks = on_stdout_data w p (concat chunks)"
  using assms
proof (induction chunks)
  case Nil
  then show ?case by (simp add: feed_def on_stdout_data_empty)
next
  case (Cons c cs)
  show ?case
  proof (cases "cs = []")
    case True
    then show ?thesis by (simp add: feed_def)
  next
    case False
    with Cons.prems have c: "c = [] \<or> last c = newline"
      and rest: "\<forall>c\<in>set (butlast cs). c = [] \<or> last c = newline"
      by simp_all
    have "feed w p (c # cs) = on_stdout_data w p c @ feed w p cs"
      by (simp add: feed_def)
    also have "\<dots> = on_stdout_data w p c @ on_stdout_data w p (concat cs)"
      using Cons.IH [OF rest] by simp
    also have "\<dots> = on_stdout_data w p (concat (c # cs))"
      using on_stdout_data_aligned [OF c] by simp
    finally show ?thesis .
  qed
qed

text \<open>
  C1 as amended. For every stdout text and every partition of it into chunks whose
  boundaries fall on line ends (every chunk but the last is empty or ends with a newline),
  the handler sends the same messages, in the same order, as for the text in one chunk:
  going through the lines of the text, at most one message per line, and one exactly when
  the window exists and the line contains \<open>PROGRESS: \<close> followed by a digit or a dot.
  Nothing is said of a boundary inside a line: each chunk is split and matched on its own.
\<close>

theorem chunks_on_line_boundaries:
  assumes "\<forall>c\<in>set (butlast chunks). c = [] \<or> last c = newline"
  shows "feed w p chunks = on_stdout_data w p (concat chunks) \<and>
         on_stdout_data w p (concat chunks) =
           concat (map (line_events w p) (split newline (concat chunks))) \<and>
         (\<forall>line. length (line_events w p line) \<le> 1 \<and>
            (line_events w p line \<noteq> [] \<longleftrightarrow>
               w \<and> (\<exists>pre c rest. line = pre @ ''PROGRESS: '' @ c # rest \<and> is_num_char c)))"
  using feed_aligned [OF assms] line_events_at_most_one line_events_nonempty_iff
  by (simp add: on_stdout_data_def)

theorem chunks_on_line_boundaries_witness:
  "feed True ''/a.mp4'' [''PROGRESS: 10\<newline>'', ''noise\<newline>PROGRESS: 55.5\<newline>'']
     = [\<lparr> path = ''/a.mp4'', progressValue = Num 10 \<rparr>, \<lparr> path = ''/a.mp4'', progressValue = Num (111 / 2) \<rparr>]"
proof -
  have "on_stdout_data True ''/a.mp4'' ''PROGRESS: 10\<newline>noise\<newline>PROGRESS: 55.5\<newline>''
     = [\<lparr> path = ''/a.mp4'', progressValue = Num 10 \<rparr>, \<lparr> path = ''/a.mp4'', progressValue = Num (111 / 2) \<rparr>]"
    by (simp add: on_stdout_data_def line_events_def parseFloat_def digits_value_def
          is_digit_def is_num_char_def newline_def Let_def)
  then show ?thesis
    using chunks_on_line_boundaries [of "[''PROGRESS: 10\<newline>'', ''noise\<newline>PROGRESS: 55.5\<newline>'']" True "''/a.mp4''"]
    by (simp add: newline_def)
qed

text \<open>
  C1 as stated fails on its own example: with the boundary inside \<open>PROGR|ESS: 10\<close> neither
  chunk holds the first line whole, and only \<open>55.5\<close> is sent; in one chunk the same text
  gives \<open>10\<close> and then \<open>55.5\<close>.
\<close>

theorem chunk_inside_line_counterexample:
  "feed True ''/a.mp4'' [''PROGR'', ''ESS: 10\<newline>noise\<newline>PROGRESS: 55.5\<newline>'']
     = [\<lparr> path = ''/a.mp4'', progressValue = Num (111 / 2) \<rparr>] \<and>
   feed True ''/a.mp4'' [''PROGRESS: 10\<newline>noise\<newline>PROGRESS: 55.5\<newline>'']
     = [\<lparr> path = ''/a.mp4'', progressValue = Num 10 \<rparr>, \<lparr> path = ''/a.mp4'', progressValue = Num (111 / 2) \<rparr>]"
  by (simp add: feed_def on_stdout_data_def line_events_def parseFloat_def digits_value_def
        is_digit_def is_num_char_def newline_def Let_def)

section \<open>Properties: enqueueing\<close>

lemma digit_nth_inj:
  "a < 10 \<Longrightarrow> b < 10 \<Longrightarrow> ''0123456789'' ! a = ''0123456789'' ! b \<Longrightarrow> a = b"
  using nth_eq_iff_index_eq [of "''0123456789''" a b] by simp

lemma show_nat_nonempty: "show_nat n \<noteq> []"
  by (subst show_nat.simps) simp

lemma show_nat_digits: "set (show_nat n) \<subseteq> set ''0123456789''"
proof (induction n rule: show_nat.induct)
  case (1 n)
  have m: "''0123456789'' ! k \<in> set ''0123456789''" if "k < 10" for k
    using that nth_mem [of k "''0123456789''"] by simp
  show ?case
  proof (cases "n < 10")
    case True
    with m [of n] show ?thesis by (subst show_nat.simps) simp
  next
    case False
    with 1 m [of "n mod 10"] show ?thesis by (subst show_nat.simps) simp
  qed
qed

lemma show_nat_inj: "show_nat m = show_nat n \<Longrightarrow> m = n"
proof (induction m arbitrary: n rule: show_nat.induct)
  case (1 m)
  show ?case
  proof (cases "m < 10")
    case m: True
    show ?thesis
    proof (cases "n < 10")
      case True
      with m 1(2) show ?thesis
        by (simp add: show_nat.simps [of m] show_nat.simps [of n] digit_nth_inj)
    next
      case False
      with m 1(2) show_nat_nonempty [of "n div 10"] show ?thesis
        by (simp add: show_nat.simps [of m] show_nat.simps [of n])
    qed
  next
    case m: False
    show ?thesis
    proof (cases "n < 10")
      case True
      with m 1(2) show_nat_nonempty [of "m div 10"] show ?thesis
        by (simp add: show_nat.simps [of m] show_nat.simps [of n])
    next
      case False
      with m 1(2) have "show_nat (m div 10) = show_nat (n div 10)"
        and d: "''0123456789'' ! (m mod 10) = ''0123456789'' ! (n mod 10)"
        by (simp_all add: show_nat.simps [of m] show_nat.simps [of n])
      with 1(1) [OF m] have "m div 10 = n div 10" by blast
      moreover from d have "m mod 10 = n mod 10" by (simp add: digit_nth_inj)
      ultimately show ?thesis by (metis div_mult_mod_eq)
    qed
  qed
qed

lemma sep_split:
  "xs @ s # ys = xs' @ s # ys' \<Longrightarrow> s \<notin> set xs \<Longrightarrow> s \<notin> set xs' \<Longrightarrow> xs = xs' \<and> ys = ys'"
proof (induction xs arbitrary: xs')
  case Nil
  then show ?case by (cases xs') auto
next
  case (Cons x xs)
  then show ?case by (cases xs') auto
qed

lemma dash_not_digit: "CHR ''-'' \<notin> set (show_nat n)"
  using show_nat_digits [of n] by auto

lemma ident_text_inj:
  assumes "show_int t1 @ CHR ''-'' # r1 = show_int t2 @ CHR ''-'' # r2"
  shows "t1 = t2 \<and> r1 = r2"
proof -
  have hd_digit: "hd (show_nat n) \<noteq> CHR ''-''" for n
    using dash_not_digit [of n] show_nat_nonempty [of n] hd_in_set by metis
  have first: "hd (show_nat n @ zs) \<noteq> CHR ''-''" for n zs
    using hd_digit [of n] show_nat_nonempty [of n] by simp
  show ?thesis
  proof (cases "t1 < 0"; cases "t2 < 0")
    assume neg: "t1 < 0" "t2 < 0"
    with assms have "show_nat (nat (- t1)) @ CHR ''-'' # r1 = show_nat (nat (- t2)) @ CHR ''-'' # r2"
      by (simp add: show_int_def)
    from sep_split [OF this dash_not_digit dash_not_digit]
    have "show_nat (nat (- t1)) = show_nat (nat (- t2))" "r1 = r2" by simp_all
    with neg show ?thesis by (auto dest: show_nat_inj)
  next
    assume "t1 < 0" "\<not> t2 < 0"
    with assms have "hd (show_nat (nat t2) @ CHR ''-'' # r2) = CHR ''-''"
      by (simp add: show_int_def) (metis list.sel(1))
    with first [of "nat t2" "CHR ''-'' # r2"] show ?thesis by simp
  next
    assume "\<not> t1 < 0" "t2 < 0"
    with assms have "hd (show_nat (nat t1) @ CHR ''-'' # r1) = CHR ''-''"
      by (simp add: show_int_def)
    with first [of "nat t1" "CHR ''-'' # r1"] show ?thesis by simp
  next
    assume pos: "\<not> t1 < 0" "\<not> t2 < 0"
    with assms have "show_nat (nat t1) @ CHR ''-'' # r1 = show_nat (nat t2) @ CHR ''-'' # r2"
      by (simp add: show_int_def)
    from sep_split [OF this dash_not_digit dash_not_digit]
    have "show_nat (nat t1) = show_nat (nat t2)" "r1 = r2" by simp_all
    with pos show ?thesis by (auto dest: show_nat_inj)
  qed
qed

lemma enqueue_all_eq: "foldl (\<lambda>q files. handleAddVideos files q) q0 calls = q0 @ map new_video (concat calls)"
  by (induction calls arbitrary: q0) (simp_all add: handleAddVideos_def)

lemma new_video_fields:
  "filepath (new_video f) = fst f" "status (new_video f) = Pending"
  "caption (new_video f) = ''''" "progress (new_video f) = Num 0"
  by (cases f; simp add: new_video_def)+

lemma new_video_ident_inj:
  "ident (new_video f) = ident (new_video g) \<Longrightarrow> snd f = snd g"
proof -
  assume a: "ident (new_video f) = ident (new_video g)"
  obtain p t r where f: "f = (p, t, r)" by (cases f)
  obtain p' t' r' where g: "g = (p', t', r')" by (cases g)
  from a f g have "show_int t @ CHR ''-'' # r = show_int t' @ CHR ''-'' # r'"
    by (simp add: new_video_def)
  from ident_text_inj [OF this] f g show ?thesis by simp
qed


lemma enqueue_all_map: "enqueue_all cs = map new_video (concat cs)"
  by (simp add: enqueue_all_def enqueue_all_eq)

lemma enqueue_filepaths: "map filepath (enqueue_all calls) = map fst (concat calls)"
  unfolding enqueue_all_map by (simp add: new_video_fields comp_def)

lemma enqueue_appends: "enqueue_all (calls @ [files]) = enqueue_all calls @ map new_video files"
  unfolding enqueue_all_map by simp

lemma enqueue_fresh: "v \<in> set (enqueue_all calls) \<Longrightarrow> status v = Pending \<and> caption v = '''' \<and> progress v = Num 0"
  unfolding enqueue_all_map by (auto simp: new_video_fields)

lemma enqueue_distinct:
  assumes d: "distinct (map snd (concat calls))"
  shows "distinct (map ident (enqueue_all calls))"
proof -
  from d have i: "inj_on snd (set (concat calls))" and dc: "distinct (concat calls)"
    unfolding distinct_map by blast+
  have "inj_on (\<lambda>f. ident (new_video f)) (set (concat calls))"
  proof (rule inj_onI)
    fix f g assume f: "f \<in> set (concat calls)" and g: "g \<in> set (concat calls)"
      and eq: "ident (new_video f) = ident (new_video g)"
    from eq have "snd f = snd g" by (rule new_video_ident_inj)
    from inj_onD [OF i this f g] show "f = g" .
  qed
  with dc show ?thesis
    unfolding enqueue_all_map distinct_map comp_def map_map by blast
qed

text \<open>
  C8 as amended. For every sequence of \<open>handleAddVideos\<close> calls from the empty queue, the
  queue lists the files in call order and, within a call, in argument order; each call
  appends its jobs after those already queued; every job is \<open>pending\<close> with empty caption
  and progress 0. The ids are pairwise distinct whenever the pairs of readings
  (\<open>Date.now()\<close>, \<open>Math.random()\<close>) taken for the jobs are pairwise distinct: the id is
  built from the two readings and nothing checks it against the ids already queued.
\<close>

theorem enqueue_order_and_ids:
  "map filepath (enqueue_all calls) = map fst (concat calls) \<and>
   enqueue_all (calls @ [files]) = enqueue_all calls @ map new_video files \<and>
   (\<forall>v\<in>set (enqueue_all calls). status v = Pending \<and> caption v = '''' \<and> progress v = Num 0) \<and>
   (distinct (map snd (concat calls)) \<longrightarrow> distinct (map ident (enqueue_all calls)))"
  using enqueue_filepaths [of calls] enqueue_appends [of calls files]
    enqueue_fresh [of _ calls] enqueue_distinct [of calls]
  by blast

theorem enqueue_order_and_ids_witness:
  "map filepath (enqueue_all [[(''/a.mp4'', 1700000000000, ''0.25''), (''/b.mp4'', 1700000000000, ''0.75'')], [], [(''/a.mp4'', 1700000000007, ''0.25'')]])
     = [''/a.mp4'', ''/b.mp4'', ''/a.mp4''] \<and>
   distinct (map ident (enqueue_all [[(''/a.mp4'', 1700000000000, ''0.25''), (''/b.mp4'', 1700000000000, ''0.75'')], [], [(''/a.mp4'', 1700000000007, ''0.25'')]]))"
  using enqueue_order_and_ids [of "[[(''/a.mp4'', 1700000000000, ''0.25''), (''/b.mp4'', 1700000000000, ''0.75'')], [], [(''/a.mp4'', 1700000000007, ''0.25'')]]" "[]"]
  by simp

text \<open>
  C8 as stated fails: two files added in one call within the same millisecond, for which
  \<open>Math.random()\<close> returns the same value, get the same id.
\<close>

theorem enqueue_same_readings_counterexample:
  "\<not> distinct (map ident (enqueue_all [[(''/a.mp4'', 1700000000000, ''0.5''), (''/b.mp4'', 1700000000000, ''0.5'')]]))"
  by (simp add: enqueue_all_def handleAddVideos_def new_video_def)

section \<open>Properties: batch run\<close>

lemma progress_fold_map: "foldl (\<lambda>vs d. on_progress d vs) q ds = map (receive ds) q"
proof (induction ds arbitrary: q)
  case Nil
  then show ?case by (simp add: receive_def)
next
  case (Cons d ds)
  show ?case
    by (simp add: Cons.IH) (simp add: on_progress_def receive_def)
qed

lemma receive_fields:
  "ident (receive ds v) = ident v" "filepath (receive ds v) = filepath v"
  "status (receive ds v) = status v" "errorMsg (receive ds v) = errorMsg v"
  "caption (receive ds v) = caption v"
  unfolding receive_def by (induction ds arbitrary: v; simp)+

lemma receive_other_path:
  "\<forall>d\<in>set ds. path d \<noteq> filepath v \<Longrightarrow> receive ds v = v"
  unfolding receive_def by (induction ds arbitrary: v) auto

lemma never_fatal: "\<not> str_includes ''Processing failed'' ''Python not found''"
  by simp

lemma thrown_text: "invoke p = Threw e \<Longrightarrow> error_text e = ''Processing failed''"
  by (cases p) (auto simp: invoke_def error_text_def)

lemma process_loop_step:
  "process_loop world settings k (video # rest) run =
     process_loop world settings (k + 1) rest
       (run\<lparr>videos :=
              (case outcome (process_video (world k) (process_args settings video)) of
                 Resolved r \<Rightarrow> set_completed (ident video)
                 | Rejected r \<Rightarrow> set_error (ident video) ''Processing failed'')
                (map (receive (messages (process_video (world k) (process_args settings video))))
                   (set_processing (ident video) (videos run))),
            requests := requests run @ [process_args settings video],
            spawns := spawns run @ spawned (process_video (world k) (process_args settings video))\<rparr>)"
proof (cases "outcome (process_video (world k) (process_args settings video))")
  case (Resolved r)
  then show ?thesis
    by (simp add: Let_def invoke_def progress_fold_map)
next
  case (Rejected r)
  then show ?thesis
    by (simp add: Let_def invoke_def error_text_def progress_fold_map)
qed

lemma step_props:
  fixes inv :: Invocation and j :: string and q :: "VideoItem list"
  defines "q' \<equiv> (case outcome inv of
                     Resolved r \<Rightarrow> set_completed j
                   | Rejected r \<Rightarrow> set_error j ''Processing failed'')
                   (map (receive (messages inv)) (set_processing j q))"
  shows "length q' = length q"
    and "i < length q \<Longrightarrow> ident (q' ! i) = ident (q ! i)"
    and "i < length q \<Longrightarrow> ident (q ! i) \<noteq> j \<Longrightarrow> status (q' ! i) = status (q ! i)"
    and "i < length q \<Longrightarrow> ident (q ! i) = j \<Longrightarrow>
           status (q' ! i) = (case outcome inv of Resolved r \<Rightarrow> Completed | Rejected r \<Rightarrow> Error)"
    and "i < length q \<Longrightarrow> ident (q ! i) \<noteq> j \<Longrightarrow>
           \<forall>d\<in>set (messages inv). path d \<noteq> filepath (q ! i) \<Longrightarrow> q' ! i = q ! i"
  unfolding q'_def
  by (cases "outcome inv";
      simp add: set_completed_def set_error_def set_processing_def receive_fields receive_other_path)+

lemma messages_for_video:
  "\<forall>d\<in>set (messages (process_video e (process_args settings video))). path d = filepath video"
proof
  fix d assume "d \<in> set (messages (process_video e (process_args settings video)))"
  from messages_path [OF this] show "path d = filepath video"
    by (simp add: process_args_def)
qed

lemma loop_shape:
  "length (videos (process_loop world settings k pend run)) = length (videos run) \<and>
   requests (process_loop world settings k pend run) = requests run @ map (process_args settings) pend \<and>
   alerts (process_loop world settings k pend run) = alerts run \<and>
   spawns (process_loop world settings k pend run) =
     spawns run @
     concat (map (\<lambda>(n, v). spawned (process_video (world n) (process_args settings v)))
               (enumerate k pend))"
proof (induction pend arbitrary: k run)
  case Nil
  then show ?case by simp
next
  case (Cons video rest)
  show ?case
    unfolding process_loop_step
    by (simp add: Cons.IH step_props(1))
qed

lemma loop_frame:
  assumes "i < length (videos run)"
    and "\<forall>v\<in>set pend. ident v \<noteq> ident (videos run ! i) \<and> filepath v \<noteq> filepath (videos run ! i)"
  shows "videos (process_loop world settings k pend run) ! i = videos run ! i"
  using assms
proof (induction pend arbitrary: k run)
  case Nil
  then show ?case by simp
next
  case (Cons video rest)
  let ?inv = "process_video (world k) (process_args settings video)"
  have away: "\<forall>d\<in>set (messages ?inv). path d \<noteq> filepath (videos run ! i)"
    using messages_for_video [of "world k" settings video] Cons.prems(2) by auto
  from Cons.prems have other: "ident (videos run ! i) \<noteq> ident video"
    by auto
  note same = step_props(5) [OF Cons.prems(1) other away]
  show ?case
    unfolding process_loop_step
    using Cons.prems same
    by (subst Cons.IH) (simp_all add: step_props(1))
qed

lemma loop_ident:
  assumes "i < length (videos run)"
  shows "ident (videos (process_loop world settings k pend run) ! i) = ident (videos run ! i)"
  using assms
proof (induction pend arbitrary: k run)
  case Nil
  then show ?case by simp
next
  case (Cons video rest)
  show ?case
    unfolding process_loop_step
    using Cons.prems
    by (subst Cons.IH) (simp_all add: step_props(1,2))
qed

lemma loop_done:
  assumes "i < length (videos run)"
    and "ident (videos run ! i) \<in> ident ` set pend \<or>
         status (videos run ! i) = Completed \<or> status (videos run ! i) = Error"
  shows "status (videos (process_loop world settings k pend run) ! i) = Completed \<or>
         status (videos (process_loop world settings k pend run) ! i) = Error"
  using assms
proof (induction pend arbitrary: k run)
  case Nil
  then show ?case by simp
next
  case (Cons video rest)
  let ?inv = "process_video (world k) (process_args settings video)"
  let ?q = "(case outcome ?inv of
              Resolved r \<Rightarrow> set_completed (ident video)
            | Rejected r \<Rightarrow> set_error (ident video) ''Processing failed'')
            (map (receive (messages ?inv)) (set_processing (ident video) (videos run)))"
  have len: "i < length ?q"
    using Cons.prems(1) by (simp add: step_props(1))
  have "ident (?q ! i) \<in> ident ` set rest \<or> status (?q ! i) = Completed \<or> status (?q ! i) = Error"
  proof (cases "ident (videos run ! i) = ident video")
    case True
    from step_props(4) [OF Cons.prems(1) True, where inv = ?inv] show ?thesis
      by (cases "outcome ?inv") simp_all
  next
    case False
    from step_props(2) [OF Cons.prems(1), where inv = ?inv and j = "ident video"]
      step_props(3) [OF Cons.prems(1) False, where inv = ?inv] Cons.prems(2) False
    show ?thesis by auto
  qed
  with len show ?case
    unfolding process_loop_step
    by (intro Cons.IH) simp_all
qed

lemma handleProcessAll_loop:
  "videos (handleProcessAll world settings vs) =
     videos (process_loop world settings 0 (eligible vs)
               \<lparr> videos = vs, requests = [], spawns = [], alerts = [] \<rparr>)"
  "requests (handleProcessAll world settings vs) =
     requests (process_loop world settings 0 (eligible vs)
               \<lparr> videos = vs, requests = [], spawns = [], alerts = [] \<rparr>)"
  "spawns (handleProcessAll world settings vs) =
     spawns (process_loop world settings 0 (eligible vs)
               \<lparr> videos = vs, requests = [], spawns = [], alerts = [] \<rparr>)"
  by (cases "eligible vs"; simp add: handleProcessAll_def Let_def del: process_loop.simps(2))+

text \<open>The defining equations with which a run on concrete data is evaluated.\<close>

lemmas run_eval = handleProcessAll_def eligible_def process_args_def invoke_def error_text_def
  on_close_def set_processing_def set_completed_def set_error_def on_progress_def
  feed_def on_stdout_data_def line_events_def parseFloat_def digits_value_def
  is_digit_def is_num_char_def newline_def Let_def strip_ext_def basename_def is_sep_def

text \<open>
  C7 as amended. \<open>eligible\<close> is the filter of the queue by status \<open>pending\<close> or \<open>error\<close>: exactly
  those jobs, in queue order, and applying it again changes nothing. A run requests
  processing for exactly the jobs eligible at its start, once each, in queue order, and
  starts the processes of these invocations and no other; the queue keeps its length, and
  every eligible job ends \<open>completed\<close> or in \<open>error\<close>. A job that shares neither its id nor its
  file path with an eligible job is left untouched in every field. So after a run that
  left one job in \<open>error\<close> and one \<open>completed\<close>, only the \<open>error\<close> job is reprocessed: it ends
  \<open>completed\<close> when its invocation resolves and in \<open>error\<close> when it rejects; the \<open>completed\<close> job
  is untouched provided its id and file path differ from the other's.
\<close>

theorem eligible_and_rerun:
  "eligible vs = filter (\<lambda>v. status v = Pending \<or> status v = Error) vs \<and>
   eligible (eligible vs) = eligible vs \<and>
   length (videos (handleProcessAll world settings vs)) = length vs \<and>
   requests (handleProcessAll world settings vs) = map (process_args settings) (eligible vs) \<and>
   spawns (handleProcessAll world settings vs) =
     concat (map (\<lambda>(n, v). spawned (process_video (world n) (process_args settings v)))
               (enumerate 0 (eligible vs))) \<and>
   (\<forall>i<length vs. vs ! i \<in> set (eligible vs) \<longrightarrow>
      status (videos (handleProcessAll world settings vs) ! i) = Completed \<or>
      status (videos (handleProcessAll world settings vs) ! i) = Error) \<and>
   (\<forall>i<length vs.
      (\<forall>v\<in>set (eligible vs). ident v \<noteq> ident (vs ! i) \<and> filepath v \<noteq> filepath (vs ! i)) \<longrightarrow>
      videos (handleProcessAll world settings vs) ! i = vs ! i) \<and>
   (\<forall>a. eligible vs = [a] \<longrightarrow>
      (\<forall>i<length vs. ident (vs ! i) = ident a \<longrightarrow>
         status (videos (handleProcessAll world settings vs) ! i) =
           (case outcome (process_video (world 0) (process_args settings a)) of
              Resolved r \<Rightarrow> Completed | Rejected r \<Rightarrow> Error)))"
proof -
  let ?run0 = "\<lparr> videos = vs, requests = [], spawns = [], alerts = [] \<rparr>"
  note shape = loop_shape [of world settings 0 "eligible vs" ?run0]
  have 1: "eligible vs = filter (\<lambda>v. status v = Pending \<or> status v = Error) vs"
    by (simp add: eligible_def)
  have 2: "eligible (eligible vs) = eligible vs"
    by (simp add: eligible_def)
  have 3: "length (videos (handleProcessAll world settings vs)) = length vs"
    using shape by (simp add: handleProcessAll_loop)
  have 4: "requests (handleProcessAll world settings vs) = map (process_args settings) (eligible vs)"
    using shape by (simp add: handleProcessAll_loop)
  have 5: "spawns (handleProcessAll world settings vs) =
     concat (map (\<lambda>(n, v). spawned (process_video (world n) (process_args settings v)))
               (enumerate 0 (eligible vs)))"
    using shape by (simp add: handleProcessAll_loop)
  have 6: "status (videos (handleProcessAll world settings vs) ! i) = Completed \<or>
           status (videos (handleProcessAll world settings vs) ! i) = Error"
    if "i < length vs" "vs ! i \<in> set (eligible vs)" for i
    using loop_done [of i ?run0 "eligible vs" world settings 0] that
    by (simp add: handleProcessAll_loop)
  have 7: "videos (handleProcessAll world settings vs) ! i = vs ! i"
    if "i < length vs"
       "\<forall>v\<in>set (eligible vs). ident v \<noteq> ident (vs ! i) \<and> filepath v \<noteq> filepath (vs ! i)" for i
    using loop_frame [of i ?run0 "eligible vs" world settings 0] that
    by (simp add: handleProcessAll_loop)
  have 8: "status (videos (handleProcessAll world settings vs) ! i) =
           (case outcome (process_video (world 0) (process_args settings a)) of
              Resolved r \<Rightarrow> Completed | Rejected r \<Rightarrow> Error)"
    if "eligible vs = [a]" "i < length vs" "ident (vs ! i) = ident a" for a i
    using that step_props(4) [of i vs "ident a" "process_video (world 0) (process_args settings a)"]
    by (simp add: handleProcessAll_loop process_loop_step del: process_loop.simps(2))
  from 1 2 3 4 5 6 7 8 show ?thesis by blast
qed

theorem eligible_and_rerun_witness:
  "eligible [failed_job, done_job ''/b.mp4''] = [failed_job] \<and>
   requests (handleProcessAll (\<lambda>k. sample_env half_way) sample_settings [failed_job, done_job ''/b.mp4''])
     = [process_args sample_settings failed_job] \<and>
   status (videos (handleProcessAll (\<lambda>k. sample_env half_way) sample_settings [failed_job, done_job ''/b.mp4'']) ! 0)
     = Completed \<and>
   videos (handleProcessAll (\<lambda>k. sample_env half_way) sample_settings [failed_job, done_job ''/b.mp4'']) ! 1
     = done_job ''/b.mp4''"
proof -
  have el: "eligible [failed_job, done_job ''/b.mp4''] = [failed_job]"
    by (simp add: eligible_def failed_job_def done_job_def sample_job_def)
  have out: "outcome (process_video (sample_env half_way) (process_args sample_settings failed_job))
               = Resolved \<lparr> success = True, error = None \<rparr>"
    by (simp add: process_video_sample half_way_def on_close_def)
  note t = eligible_and_rerun [of "[failed_job, done_job ''/b.mp4'']" "\<lambda>k. sample_env half_way" sample_settings]
  have far: "\<forall>v\<in>set (eligible [failed_job, done_job ''/b.mp4'']).
               ident v \<noteq> ident ([failed_job, done_job ''/b.mp4''] ! 1) \<and>
               filepath v \<noteq> filepath ([failed_job, done_job ''/b.mp4''] ! 1)"
    by (simp add: el) (simp add: failed_job_def done_job_def sample_job_def)
  from t have "requests (handleProcessAll (\<lambda>k. sample_env half_way) sample_settings [failed_job, done_job ''/b.mp4''])
     = [process_args sample_settings failed_job]"
    by (simp add: el)
  moreover from t el out
  have "status (videos (handleProcessAll (\<lambda>k. sample_env half_way) sample_settings [failed_job, done_job ''/b.mp4'']) ! 0)
     = Completed"
    by simp
  moreover from t far
  have "videos (handleProcessAll (\<lambda>k. sample_env half_way) sample_settings [failed_job, done_job ''/b.mp4'']) ! 1
     = done_job ''/b.mp4''"
    by simp
  ultimately show ?thesis using el by simp
qed

text \<open>
  C7 as stated fails: the \<open>completed\<close> job is a second entry for the file of the \<open>error\<close> job;
  when that one is reprocessed its progress message, routed by path, overwrites the
  progress 100 of the \<open>completed\<close> job.
\<close>

theorem completed_duplicate_counterexample:
  "eligible [failed_job, done_job ''/a.mp4''] = [failed_job] \<and>
   videos (handleProcessAll (\<lambda>k. sample_env half_way) sample_settings [failed_job, done_job ''/a.mp4'']) ! 1
     = (done_job ''/a.mp4'')\<lparr>progress := Num 50\<rparr> \<and>
   (done_job ''/a.mp4'')\<lparr>progress := Num 50\<rparr> \<noteq> done_job ''/a.mp4''"
  by (simp add: run_eval process_video_sample sample_job_def sample_settings_def failed_job_def
        done_job_def half_way_def)

text \<open>
  C2. The code departs from the claim. On a machine without Python the resolver rejects
  with its message, but the handler returns the failure object instead of rejecting, so
  \<open>await processVideo\<close> does not throw: with two pending jobs, both end \<open>completed\<close> at
  progress 100 with no error message, and the run ends with the completion alert alone.
\<close>

theorem resolver_failure_marks_completed:
  "findPythonCommand (probe no_python_env) (order no_python_env) =
     (Inl ''Python not found. Please install Python and make sure it's in your PATH.'',
      [(''python'', [''--version'']), (''python3'', [''--version'']), (''py'', [''--version''])]) \<and>
   eligible [sample_job ''1'' ''/a.mp4'' [] Pending, sample_job ''2'' ''/b.mp4'' [] Pending]
     = [sample_job ''1'' ''/a.mp4'' [] Pending, sample_job ''2'' ''/b.mp4'' [] Pending] \<and>
   map status (videos (handleProcessAll (\<lambda>k. no_python_env) sample_settings
      [sample_job ''1'' ''/a.mp4'' [] Pending, sample_job ''2'' ''/b.mp4'' [] Pending])) = [Completed, Completed] \<and>
   map progress (videos (handleProcessAll (\<lambda>k. no_python_env) sample_settings
      [sample_job ''1'' ''/a.mp4'' [] Pending, sample_job ''2'' ''/b.mp4'' [] Pending])) = [Num 100, Num 100] \<and>
   map errorMsg (videos (handleProcessAll (\<lambda>k. no_python_env) sample_settings
      [sample_job ''1'' ''/a.mp4'' [] Pending, sample_job ''2'' ''/b.mp4'' [] Pending])) = [None, None] \<and>
   alerts (handleProcessAll (\<lambda>k. no_python_env) sample_settings
      [sample_job ''1'' ''/a.mp4'' [] Pending, sample_job ''2'' ''/b.mp4'' [] Pending]) = [ProcessingComplete]"
proof -
  have "findPythonCommand (probe no_python_env) (order no_python_env) =
     (Inl ''Python not found. Please install Python and make sure it's in your PATH.'',
      [(''python'', [''--version'']), (''python3'', [''--version'']), (''py'', [''--version''])])"
    using no_python_resolution by (simp add: no_python_env_def not_found_msg_def)
  then show ?thesis
    by (simp add: run_eval process_video_no_python sample_job_def sample_settings_def)
qed

text \<open>
  C4. The code departs from the claim in the message. In a run over three pending jobs
  where the encoder of the second closes with code 1 and stderr \<open>bad codec\<close>, the handler
  rejects with that message, but the bridge throws a new \<open>Error\<close> without the property
  \<open>error\<close>: the final states are \<open>completed\<close>, \<open>error\<close> with message \<open>Processing failed\<close>,
  \<open>completed\<close>. The run does go on to the third job and ends with the completion alert.
\<close>

theorem encode_failure_message_lost:
  "outcome (process_video (bad_codec_world 1) (process_args sample_settings (three_jobs ! 1)))
     = Rejected \<lparr> success = False, error = Some ''bad codec'' \<rparr> \<and>
   eligible three_jobs = three_jobs \<and>
   map status (videos (handleProcessAll bad_codec_world sample_settings three_jobs))
     = [Completed, Error, Completed] \<and>
   map errorMsg (videos (handleProcessAll bad_codec_world sample_settings three_jobs))
     = [None, Some ''Processing failed'', None] \<and>
   alerts (handleProcessAll bad_codec_world sample_settings three_jobs) = [ProcessingComplete]"
  by (simp add: run_eval process_video_sample bad_codec_world_def three_jobs_def half_way_def
        sample_job_def sample_settings_def)

end
